theory Spec2Isabelle
  imports
    Complex_Main
    "HOL-Library.Char_ord"
    "HOL-Library.List_Lexorder"
    "HOL-Library.Product_Lexorder"
begin

section \<open>Forward selection (\<open>data_mining\<close>) of the train-and-test notebook\<close>

text \<open>
  The notebook \<^verbatim>\<open>lesson-06-train-and-test.ipynb\<close> defines one routine with control flow,
  \<^verbatim>\<open>data_mining(data, dv)\<close>, and a fixed split of the sorted rows into three subsets.
  Both are embedded below.

  Conventions of the embedding:
  \<^item> column names are strings, compared as Python compares \<^verbatim>\<open>str\<close>: lexicographically,
    a proper prefix first;
  \<^item> an adjusted R-squared is a \<^typ>\<open>real\<close>: the finite floats under their order
    (\<^verbatim>\<open>nan\<close> is outside the model);
  \<^item> \<^verbatim>\<open>smf.ols(formula, data).fit().rsquared_adj\<close> belongs to statsmodels, not to the
    notebook: it is a parameter \<open>ols\<close> that maps a formula and a data frame to a score or
    to the message of the exception it raises, which the routine passes on as
    \<open>FitFailure\<close>;
  \<^item> a Python \<^verbatim>\<open>set\<close> is the list of its elements in the order its iterator yields them.
    CPython derives that order from the hashes of the strings, which change from process to
    process, so the order in which \<^verbatim>\<open>set(data.columns)\<close> enumerates is a parameter
    \<open>set_order\<close>; removing an element leaves the others in place;
  \<^item> an exception is a value \<open>Inl e\<close>; where it leaves the loop it comes with the state
    of the variables at the raise; a loop that never exits is \<open>None\<close>.
\<close>

subsection \<open>Data\<close>

datatype py_error = KeyError string | IndexError | TypeError | FitFailure string

record 'r dataframe =
  columns :: "string list"
  rows :: "'r list"

type_synonym 'r ols = "string \<Rightarrow> 'r dataframe \<Rightarrow> string + real"

text \<open>
  The variables of \<^verbatim>\<open>data_mining\<close> that live across iterations of the \<^verbatim>\<open>while\<close> loop.
  \<open>score\<close> is the loop variable of the inner \<^verbatim>\<open>for\<close>: unbound (\<open>None\<close>) until the first
  fit. \<open>stdout\<close> collects what \<^verbatim>\<open>print(current_score)\<close> writes.
\<close>

record state =
  remaining :: "string list"
  selected :: "string list"
  current_score :: real
  best_new_score :: real
  score :: "real option"
  stdout :: "real list"

text \<open>
  What a call that returns leaves behind: the variables at the exit of the loop, the
  formula it prints, and the fitted model, of which the adjusted R-squared is kept.
\<close>

record result =
  final :: state
  printed_formula :: string
  model_rsquared_adj :: real

subsection \<open>The routine\<close>

text \<open>\<^verbatim>\<open>sep.join(xs)\<close>\<close>

fun join :: "string \<Rightarrow> string list \<Rightarrow> string" where
  "join sep [] = []"
| "join sep [x] = x"
| "join sep (x # y # ys) = x @ sep @ join sep (y # ys)"

text \<open>\<^verbatim>\<open>"{} ~ {} + 1".format(dv, ' + '.join(xs))\<close>\<close>

definition formula :: "string \<Rightarrow> string list \<Rightarrow> string" where
  "formula dv xs = dv @ '' ~ '' @ join '' + '' xs @ '' + 1''"

text \<open>
  The inner loop \<^verbatim>\<open>for candidate in remaining\<close>: one fit per candidate, in iteration
  order; the first exception ends it. The accumulator is \<^verbatim>\<open>scores_with_candidates\<close>
  and the variable \<^verbatim>\<open>score\<close>, which an exception finds as the last successful fit left
  it.
\<close>

fun for_candidate ::
  "'r ols \<Rightarrow> 'r dataframe \<Rightarrow> string \<Rightarrow> string list \<Rightarrow> string list
    \<Rightarrow> (real \<times> string) list \<times> real option
    \<Rightarrow> py_error \<times> real option + (real \<times> string) list \<times> real option" where
  "for_candidate ols data dv sel [] acc = Inr acc"
| "for_candidate ols data dv sel (candidate # rest) (scores_with_candidates, sc) =
     (case ols (formula dv (sel @ [candidate])) data of
        Inl e \<Rightarrow> Inl (FitFailure e, sc)
      | Inr r \<Rightarrow>
          for_candidate ols data dv sel rest
            (scores_with_candidates @ [(r, candidate)], Some r))"

text \<open>
  The body of the \<^verbatim>\<open>while\<close> loop. \<^verbatim>\<open>pop()\<close> on an empty list raises \<^verbatim>\<open>IndexError\<close>
  (the loop guard excludes it). \<^verbatim>\<open>'model overfitted: ' + selected\<close> adds a list to a
  string, which raises \<^verbatim>\<open>TypeError\<close> whatever the list holds; by then the step has been
  accepted and its score printed.
\<close>

definition body ::
  "'r ols \<Rightarrow> 'r dataframe \<Rightarrow> string \<Rightarrow> state \<Rightarrow> py_error \<times> state + state" where
  "body ols data dv s =
     (case for_candidate ols data dv (selected s) (remaining s) ([], score s) of
        Inl (e, sc) \<Rightarrow> Inl (e, s\<lparr>score := sc\<rparr>)
      | Inr (scores_with_candidates, sc) \<Rightarrow>
          (case sort scores_with_candidates of
             [] \<Rightarrow> Inl (IndexError, s\<lparr>score := sc\<rparr>)
           | p # ps \<Rightarrow>
               (case last (p # ps) of
                  (bns, best_candidate) \<Rightarrow>
                    let s1 = s\<lparr>best_new_score := bns, score := sc\<rparr> in
                    if current_score s1 < best_new_score s1 then
                      let s2 = s1\<lparr>remaining := remove1 best_candidate (remaining s1),
                                   selected := selected s1 @ [best_candidate],
                                   current_score := best_new_score s1,
                                   stdout := stdout s1 @ [best_new_score s1]\<rparr>
                      in if score s2 = Some 1 then Inl (TypeError, s2) else Inr s2
                    else Inr s1)))"

text \<open>The guard \<^verbatim>\<open>remaining and current_score == best_new_score\<close>.\<close>

definition guard :: "state \<Rightarrow> bool" where
  "guard s \<longleftrightarrow> remaining s \<noteq> [] \<and> current_score s = best_new_score s"

partial_function (option) while_loop ::
  "'r ols \<Rightarrow> 'r dataframe \<Rightarrow> string \<Rightarrow> state \<Rightarrow> (py_error \<times> state + state) option" where
  "while_loop ols data dv s =
     (if guard s then
        (case body ols data dv s of
           Inl raised \<Rightarrow> Some (Inl raised)
         | Inr s' \<Rightarrow> while_loop ols data dv s')
      else Some (Inr s))"

text \<open>
  The routine: \<^verbatim>\<open>remaining.remove(dv)\<close> raises \<^verbatim>\<open>KeyError\<close> when \<open>dv\<close> is not in the set;
  after the loop the formula of the selected variables is printed and fitted.
\<close>

definition initial :: "string list \<Rightarrow> state" where
  "initial rem =
     \<lparr>remaining = rem, selected = [], current_score = 0, best_new_score = 0,
      score = None, stdout = []\<rparr>"

definition data_mining ::
  "'r ols \<Rightarrow> (string list \<Rightarrow> string list) \<Rightarrow> 'r dataframe \<Rightarrow> string
    \<Rightarrow> (py_error + result) option" where
  "data_mining ols set_order data dv =
     (let remaining0 = set_order (columns data) in
      if dv \<notin> set remaining0 then Some (Inl (KeyError dv))
      else
        (case while_loop ols data dv (initial (remove1 dv remaining0)) of
           None \<Rightarrow> None
         | Some (Inl (e, s)) \<Rightarrow> Some (Inl e)
         | Some (Inr s) \<Rightarrow>
             (case ols (formula dv (selected s)) data of
                Inl e \<Rightarrow> Some (Inl (FitFailure e))
              | Inr r \<Rightarrow>
                  Some (Inr \<lparr>final = s,
                             printed_formula = formula dv (selected s),
                             model_rsquared_adj = r\<rparr>))))"

text \<open>
  The state at the head of the \<^verbatim>\<open>while\<close> loop after \<open>n\<close> complete iterations, when the
  run gets that far: the states a run of \<^verbatim>\<open>data_mining\<close> passes through.
\<close>

fun loop_head ::
  "'r ols \<Rightarrow> 'r dataframe \<Rightarrow> string \<Rightarrow> nat \<Rightarrow> state \<Rightarrow> state option" where
  "loop_head ols data dv 0 s = Some s"
| "loop_head ols data dv (Suc n) s =
     (if guard s then
        (case body ols data dv s of
           Inl raised \<Rightarrow> None
         | Inr s' \<Rightarrow> loop_head ols data dv n s')
      else None)"

text \<open>The state an iteration ends in, whether it raises or not.\<close>

definition state_after :: "py_error \<times> state + state \<Rightarrow> state" where
  "state_after outcome = (case outcome of Inl (e, t) \<Rightarrow> t | Inr t \<Rightarrow> t)"

subsection \<open>Vocabulary of the statements\<close>

text \<open>
  The adjusted R-squared of the model \<open>sel + [c]\<close> (0 where the fit raises), and whether
  every candidate of a list can be fitted on top of \<open>sel\<close>.
\<close>

definition adj :: "'r ols \<Rightarrow> 'r dataframe \<Rightarrow> string \<Rightarrow> string list \<Rightarrow> string \<Rightarrow> real" where
  "adj ols data dv sel c =
     (case ols (formula dv (sel @ [c])) data of Inl e \<Rightarrow> 0 | Inr r \<Rightarrow> r)"

definition fits :: "'r ols \<Rightarrow> 'r dataframe \<Rightarrow> string \<Rightarrow> string list \<Rightarrow> string list \<Rightarrow> bool" where
  "fits ols data dv sel cands \<longleftrightarrow>
     (\<forall>c\<in>set cands. \<not> isl (ols (formula dv (sel @ [c])) data))"

definition scored :: "'r ols \<Rightarrow> 'r dataframe \<Rightarrow> string \<Rightarrow> state \<Rightarrow> (real \<times> string) list" where
  "scored ols data dv s = map (\<lambda>c. (adj ols data dv (selected s) c, c)) (remaining s)"

text \<open>
  Two properties of a state. The printed scores increase strictly, starting above the
  initial score 0, there is one per selected variable and the last one is the current
  score. The selected and the remaining names are duplicate-free, disjoint, and together
  make up a given set of names.
\<close>

definition increasing :: "state \<Rightarrow> bool" where
  "increasing s \<longleftrightarrow>
     sorted_wrt (<) (0 # stdout s) \<and> current_score s = last (0 # stdout s) \<and>
     length (stdout s) = length (selected s)"

definition partitioned :: "string set \<Rightarrow> state \<Rightarrow> bool" where
  "partitioned C s \<longleftrightarrow>
     distinct (selected s) \<and> distinct (remaining s) \<and>
     set (selected s) \<inter> set (remaining s) = {} \<and>
     set (selected s) \<union> set (remaining s) = C"


text \<open>The candidates \<^verbatim>\<open>data_mining\<close> starts from.\<close>

definition candidates :: "(string list \<Rightarrow> string list) \<Rightarrow> 'r dataframe \<Rightarrow> string \<Rightarrow> string list" where
  "candidates set_order data dv = remove1 dv (set_order (columns data))"

subsection \<open>The split into train, validate and test\<close>

text \<open>
  \<^verbatim>\<open>list(range(start, stop, step))\<close> for a positive step, and the three masks of row
  labels. After \<^verbatim>\<open>sort_values(by='crime_percap').reset_index()\<close> the rows carry the labels
  \<open>0, 1, 2, \<dots>\<close> in sorted order, and \<^verbatim>\<open>df.loc[mask]\<close> takes the rows whose label is in
  the mask: a row belongs to a subset exactly when its label is in the subset's mask.
  Sorting and \<^verbatim>\<open>.loc\<close> belong to pandas; what \<^verbatim>\<open>.loc\<close> does with a label that the frame
  lacks depends on its version and is not part of the model.
\<close>

definition range3 :: "nat \<Rightarrow> nat \<Rightarrow> nat \<Rightarrow> nat list" where
  "range3 start stop step =
     map (\<lambda>k. start + k * step) [0..<(stop - start + (step - 1)) div step]"

definition train_mask :: "nat list" where
  "train_mask = sort (range3 0 180 4 @ range3 1 180 4)"

definition validate_mask :: "nat list" where
  "validate_mask = range3 2 180 4"

definition test_mask :: "nat list" where
  "test_mask = range3 3 180 4"

text \<open>The row labels of a data frame after \<^verbatim>\<open>reset_index()\<close>.\<close>

definition labels :: "'r dataframe \<Rightarrow> nat list" where
  "labels df = [0..<length (rows df)]"

subsection \<open>Concrete inputs\<close>

text \<open>
  A fitting routine given by a table from formulas to scores; a formula outside the table
  raises.
\<close>

definition table_ols :: "(string \<times> real) list \<Rightarrow> unit ols" where
  "table_ols tbl f d = (case map_of tbl f of None \<Rightarrow> Inl f | Some r \<Rightarrow> Inr r)"

definition yab :: "unit dataframe" where
  "yab = \<lparr>columns = [''y'', ''a'', ''b''], rows = []\<rparr>"

text \<open>Two informative predictors: both are accepted, \<open>a\<close> first.\<close>

definition ols_two :: "unit ols" where
  "ols_two = table_ols
     [(''y ~ a + 1'', 0.5), (''y ~ b + 1'', 0.3), (''y ~ a + b + 1'', 0.7)]"

text \<open>
  A predictor \<open>a\<close> that determines \<open>y\<close> exactly (adjusted R-squared 1.0, alone and together
  with \<open>b\<close>), beside a weak predictor \<open>b\<close>.
\<close>

definition ols_perfect :: "unit ols" where
  "ols_perfect = table_ols
     [(''y ~ a + 1'', 1), (''y ~ b + 1'', 0.3), (''y ~ a + b + 1'', 1),
      (''y ~ b + a + 1'', 1)]"



text \<open>Two enumerations of the same set of columns.\<close>

definition forwards :: "string list \<Rightarrow> string list" where
  "forwards xs = remdups xs"

definition backwards :: "string list \<Rightarrow> string list" where
  "backwards xs = rev (remdups xs)"

text \<open>Data frames of 7 and of 181 rows.\<close>

definition rows7 :: "unit dataframe" where
  "rows7 = \<lparr>columns = [], rows = replicate 7 ()\<rparr>"

definition rows181 :: "unit dataframe" where
  "rows181 = \<lparr>columns = [], rows = replicate 181 ()\<rparr>"

subsection \<open>The inner loop and the body\<close>

lemma sorted_le_last: "sorted xs \<Longrightarrow> x \<in> set xs \<Longrightarrow> x \<le> last xs"
  by (induction xs) auto

lemma last_sort_Max: "xs \<noteq> [] \<Longrightarrow> last (sort xs) = Max (set xs)"
proof -
  assume ne: "xs \<noteq> []"
  then have ne': "sort xs \<noteq> []" by (metis length_sort length_0_conv)
  have "last (sort xs) \<in> set xs" using last_in_set [OF ne'] by simp
  moreover have "\<And>y. y \<in> set xs \<Longrightarrow> y \<le> last (sort xs)"
    using sorted_le_last [of "sort xs"] by simp
  ultimately show ?thesis by (intro Max_eqI [symmetric]) auto
qed

lemma for_candidate_fits:
  "fits ols data dv sel cands \<Longrightarrow>
   for_candidate ols data dv sel cands (swc, sc0) =
     Inr (swc @ map (\<lambda>c. (adj ols data dv sel c, c)) cands,
          if cands = [] then sc0 else Some (adj ols data dv sel (last cands)))"
proof (induction cands arbitrary: swc sc0)
  case Nil
  then show ?case by simp
next
  case (Cons c cs)
  from Cons.prems obtain r where r: "ols (formula dv (sel @ [c])) data = Inr r"
    by (cases "ols (formula dv (sel @ [c])) data") (auto simp: fits_def)
  from Cons.prems have "fits ols data dv sel cs" by (simp add: fits_def)
  from Cons.IH [OF this] r show ?case by (simp add: adj_def)
qed

lemma for_candidate_fails:
  "\<not> fits ols data dv sel cands \<Longrightarrow>
   \<exists>e c sc. c \<in> set cands \<and> ols (formula dv (sel @ [c])) data = Inl e \<and>
     for_candidate ols data dv sel cands (swc, sc0) = Inl (FitFailure e, sc)"
proof (induction cands arbitrary: swc sc0)
  case Nil
  then show ?case by (simp add: fits_def)
next
  case (Cons c cs)
  show ?case
  proof (cases "ols (formula dv (sel @ [c])) data")
    case (Inl e)
    then show ?thesis by auto
  next
    case (Inr r)
    with Cons.prems have "\<not> fits ols data dv sel cs" by (simp add: fits_def)
    from Cons.IH [OF this, of "swc @ [(r, c)]" "Some r"]
    obtain e c' sc where "c' \<in> set cs" "ols (formula dv (sel @ [c'])) data = Inl e"
      "for_candidate ols data dv sel cs (swc @ [(r, c)], Some r) = Inl (FitFailure e, sc)"
      by blast
    with Inr show ?thesis by (intro exI [of _ e] exI [of _ c'] exI [of _ sc]) simp
  qed
qed

text \<open>The greatest pair of a scored list: the best score, and among equal scores the
  greatest name.\<close>

lemma Max_scored:
  assumes "remaining s \<noteq> []"
  shows "\<exists>b\<in>set (remaining s).
     Max (set (scored ols data dv s)) = (adj ols data dv (selected s) b, b) \<and>
     (\<forall>c\<in>set (remaining s).
        adj ols data dv (selected s) c \<le> adj ols data dv (selected s) b \<and>
        (adj ols data dv (selected s) c = adj ols data dv (selected s) b \<longrightarrow> c \<le> b))"
proof -
  let ?A = "set (scored ols data dv s)"
  have fin: "finite ?A" and ne: "?A \<noteq> {}" using assms by (simp_all add: scored_def)
  from Max_in [OF fin ne] obtain b where b: "b \<in> set (remaining s)"
    and m: "Max ?A = (adj ols data dv (selected s) b, b)"
    by (auto simp: scored_def)
  have "adj ols data dv (selected s) c \<le> adj ols data dv (selected s) b \<and>
        (adj ols data dv (selected s) c = adj ols data dv (selected s) b \<longrightarrow> c \<le> b)"
    if c: "c \<in> set (remaining s)" for c
  proof -
    from c have "(adj ols data dv (selected s) c, c) \<in> ?A" by (simp add: scored_def)
    from Max_ge [OF fin this]
    have "(adj ols data dv (selected s) c, c) \<le> (adj ols data dv (selected s) b, b)"
      unfolding m .
    then show ?thesis by (auto simp: less_eq_prod_def)
  qed
  with b m show ?thesis by blast
qed

text \<open>The body when every fit succeeds, and when one does not.\<close>

lemma body_fits:
  assumes ne: "remaining s \<noteq> []" and f: "fits ols data dv (selected s) (remaining s)"
  shows "body ols data dv s =
     (let b = Max (set (scored ols data dv s));
          sc = adj ols data dv (selected s) (last (remaining s));
          accepted = s\<lparr>remaining := remove1 (snd b) (remaining s),
                       selected := selected s @ [snd b],
                       current_score := fst b,
                       best_new_score := fst b,
                       score := Some sc,
                       stdout := stdout s @ [fst b]\<rparr>
      in if current_score s < fst b then
           if sc = 1 then Inl (TypeError, accepted) else Inr accepted
         else Inr (s\<lparr>best_new_score := fst b, score := Some sc\<rparr>))"
proof -
  let ?xs = "scored ols data dv s"
  have xs: "?xs \<noteq> []" using ne by (simp add: scored_def)
  then have "sort ?xs \<noteq> []" by (metis length_sort length_0_conv)
  then obtain p ps where ps: "sort ?xs = p # ps" by (cases "sort ?xs") auto
  have l: "last (p # ps) = Max (set ?xs)" using last_sort_Max [OF xs] ps by simp
  obtain bns bc where b: "Max (set ?xs) = (bns, bc)" by (cases "Max (set ?xs)")
  have fc: "for_candidate ols data dv (selected s) (remaining s) ([], score s) =
      Inr (?xs, Some (adj ols data dv (selected s) (last (remaining s))))"
    using for_candidate_fits [OF f, of "[]" "score s"] ne by (simp add: scored_def)
  show ?thesis
    unfolding body_def fc using ps l b
    by (simp add: Let_def del: last.simps)
qed

lemma body_fails:
  assumes "\<not> fits ols data dv (selected s) (remaining s)"
  shows "\<exists>e c sc. c \<in> set (remaining s) \<and>
     ols (formula dv (selected s @ [c])) data = Inl e \<and>
     body ols data dv s = Inl (FitFailure e, s\<lparr>score := sc\<rparr>)"
proof -
  from for_candidate_fails [OF assms, of "[]" "score s"] obtain e c sc
    where "c \<in> set (remaining s)" "ols (formula dv (selected s @ [c])) data = Inl e"
      "for_candidate ols data dv (selected s) (remaining s) ([], score s) =
        Inl (FitFailure e, sc)"
    by blast
  then have "c \<in> set (remaining s) \<and> ols (formula dv (selected s @ [c])) data = Inl e \<and>
     body ols data dv s = Inl (FitFailure e, s\<lparr>score := sc\<rparr>)"
    by (simp add: body_def)
  then show ?thesis by blast
qed




text \<open>The state an iteration ends in, in each of its three outcomes.\<close>

lemma state_after_body:
  assumes ne: "remaining s \<noteq> []"
  shows "(\<exists>sc. state_after (body ols data dv s) = s\<lparr>score := sc\<rparr>) \<or>
     (\<exists>sc x. x \<le> current_score s \<and>
        state_after (body ols data dv s) = s\<lparr>best_new_score := x, score := sc\<rparr>) \<or>
     (\<exists>sc x. \<exists>b\<in>set (remaining s). current_score s < x \<and>
        state_after (body ols data dv s) =
          s\<lparr>remaining := remove1 b (remaining s), selected := selected s @ [b],
            current_score := x, best_new_score := x, score := sc,
            stdout := stdout s @ [x]\<rparr>)"
proof (cases "fits ols data dv (selected s) (remaining s)")
  case False
  from body_fails [OF False] obtain e sc
    where "body ols data dv s = Inl (FitFailure e, s\<lparr>score := sc\<rparr>)" by blast
  then have "\<exists>sc. state_after (body ols data dv s) = s\<lparr>score := sc\<rparr>"
    by (auto simp: state_after_def)
  then show ?thesis by blast
next
  case True
  from Max_scored [OF ne, of ols data dv] obtain b where b: "b \<in> set (remaining s)"
    and m: "Max (set (scored ols data dv s)) = (adj ols data dv (selected s) b, b)"
    by blast
  show ?thesis
  proof (cases "current_score s < adj ols data dv (selected s) b")
    case False
    then have "state_after (body ols data dv s) =
        s\<lparr>best_new_score := adj ols data dv (selected s) b,
          score := Some (adj ols data dv (selected s) (last (remaining s)))\<rparr>"
      unfolding body_fits [OF ne True] m by (simp add: Let_def state_after_def)
    moreover from False have "adj ols data dv (selected s) b \<le> current_score s" by simp
    ultimately have "\<exists>sc x. x \<le> current_score s \<and>
        state_after (body ols data dv s) = s\<lparr>best_new_score := x, score := sc\<rparr>"
      by blast
    then show ?thesis by blast
  next
    case less: True
    then have "state_after (body ols data dv s) =
        s\<lparr>remaining := remove1 b (remaining s), selected := selected s @ [b],
          current_score := adj ols data dv (selected s) b,
          best_new_score := adj ols data dv (selected s) b,
          score := Some (adj ols data dv (selected s) (last (remaining s))),
          stdout := stdout s @ [adj ols data dv (selected s) b]\<rparr>"
      unfolding body_fits [OF ne True] m by (simp add: Let_def state_after_def)
    with less b show ?thesis by blast
  qed
qed

subsection \<open>Runs\<close>

lemma loop_head_invariant:
  assumes "loop_head ols data dv n s0 = Some s" and "P s0"
    and "\<And>s. P s \<Longrightarrow> guard s \<Longrightarrow> P (state_after (body ols data dv s))"
  shows "P s"
  using assms(1,2)
proof (induction n arbitrary: s0)
  case 0
  then show ?case by simp
next
  case (Suc n)
  from Suc.prems(1) obtain s1 where g: "guard s0" and b: "body ols data dv s0 = Inr s1"
    and l: "loop_head ols data dv n s1 = Some s"
    by (auto split: if_splits sum.splits)
  from assms(3) [OF Suc.prems(2) g] b have "P s1" by (simp add: state_after_def)
  from Suc.IH [OF l this] show ?case .
qed

lemma while_loop_loop_head:
  "loop_head ols data dv n s0 = Some s \<Longrightarrow>
   while_loop ols data dv s0 = while_loop ols data dv s"
proof (induction n arbitrary: s0)
  case 0
  then show ?case by simp
next
  case (Suc n)
  from Suc.prems obtain s1 where g: "guard s0" and b: "body ols data dv s0 = Inr s1"
    and l: "loop_head ols data dv n s1 = Some s"
    by (auto split: if_splits sum.splits)
  have "while_loop ols data dv s0 = while_loop ols data dv s1"
    using g b by (subst while_loop.simps) simp
  with Suc.IH [OF l] show ?case by simp
qed

lemma while_loop_returns:
  assumes "while_loop ols data dv s0 = Some (Inr t)"
  shows "\<exists>n. loop_head ols data dv n s0 = Some t \<and> \<not> guard t"
proof -
  have "\<forall>t. y = Inr t \<longrightarrow> (\<exists>n. loop_head ols data dv n s0 = Some t \<and> \<not> guard t)"
    if "while_loop ols data dv s0 = Some y" for y
  proof (rule while_loop.raw_induct
      [where P = "\<lambda>ols data dv s0 y.
         \<forall>t. y = Inr t \<longrightarrow> (\<exists>n. loop_head ols data dv n s0 = Some t \<and> \<not> guard t)",
       OF _ that])
    fix wl :: "'a ols \<Rightarrow> 'a dataframe \<Rightarrow> string \<Rightarrow> state \<Rightarrow> (py_error \<times> state + state) option"
    fix ols data dv s0 y
    assume IH: "\<And>ols data dv s y. wl ols data dv s = Some y \<Longrightarrow>
        \<forall>t. y = Inr t \<longrightarrow> (\<exists>n. loop_head ols data dv n s = Some t \<and> \<not> guard t)"
      and eq: "(if guard s0 then
          (case body ols data dv s0 of Inl raised \<Rightarrow> Some (Inl raised)
           | Inr s' \<Rightarrow> wl ols data dv s')
        else Some (Inr s0)) = Some y"
    show "\<forall>t. y = Inr t \<longrightarrow> (\<exists>n. loop_head ols data dv n s0 = Some t \<and> \<not> guard t)"
    proof (intro allI impI)
      fix t assume y: "y = Inr t"
      show "\<exists>n. loop_head ols data dv n s0 = Some t \<and> \<not> guard t"
      proof (cases "guard s0")
        case False
        with eq y have "t = s0" by simp
        with False have "loop_head ols data dv 0 s0 = Some t \<and> \<not> guard t" by simp
        then show ?thesis by blast
      next
        case True
        with eq y obtain s1 where b: "body ols data dv s0 = Inr s1"
          and w: "wl ols data dv s1 = Some y"
          by (auto split: sum.splits)
        from IH [OF w] y obtain n where "loop_head ols data dv n s1 = Some t" "\<not> guard t"
          by blast
        with True b have "loop_head ols data dv (Suc n) s0 = Some t \<and> \<not> guard t" by simp
        then show ?thesis by blast
      qed
    qed
  qed
  from this [OF assms] show ?thesis by simp
qed

text \<open>A set of states that the body never leaves and on which the guard holds: the loop
  does not exit.\<close>

lemma while_loop_diverges:
  assumes step: "\<And>s. I s \<Longrightarrow> guard s \<and> (\<exists>s'. body ols data dv s = Inr s' \<and> I s')"
    and "I s0"
  shows "while_loop ols data dv s0 = None"
proof (rule ccontr)
  assume "while_loop ols data dv s0 \<noteq> None"
  then obtain y where y: "while_loop ols data dv s0 = Some y" by auto
  let ?closed = "\<lambda>ols data dv.
    \<forall>s. I s \<longrightarrow> guard s \<and> (\<exists>s'. body ols data dv s = Inr s' \<and> I s')"
  have "?closed ols data dv \<longrightarrow> \<not> I s0"
  proof (rule while_loop.raw_induct
      [where P = "\<lambda>ols data dv s y. ?closed ols data dv \<longrightarrow> \<not> I s", OF _ y])
    fix wl :: "'a ols \<Rightarrow> 'a dataframe \<Rightarrow> string \<Rightarrow> state \<Rightarrow> (py_error \<times> state + state) option"
    fix ols data dv s y
    assume IH: "\<And>ols data dv s y. wl ols data dv s = Some y \<Longrightarrow>
        ?closed ols data dv \<longrightarrow> \<not> I s"
      and eq: "(if guard s then
          (case body ols data dv s of Inl raised \<Rightarrow> Some (Inl raised)
           | Inr s' \<Rightarrow> wl ols data dv s')
        else Some (Inr s)) = Some y"
    show "?closed ols data dv \<longrightarrow> \<not> I s"
    proof (intro impI notI)
      assume st: "?closed ols data dv" and i: "I s"
      then obtain s' where g: "guard s" and b: "body ols data dv s = Inr s'"
        and i': "I s'" by blast
      from eq g b have "wl ols data dv s' = Some y" by simp
      from IH [OF this] st i' show False by blast
    qed
  qed
  with step assms(2) show False by blast
qed

lemma data_mining_loop:
  assumes "dv \<in> set (set_order (columns data))"
  shows "data_mining ols set_order data dv =
     (case while_loop ols data dv (initial (candidates set_order data dv)) of
        None \<Rightarrow> None
      | Some (Inl (e, s)) \<Rightarrow> Some (Inl e)
      | Some (Inr s) \<Rightarrow>
          (case ols (formula dv (selected s)) data of
             Inl e \<Rightarrow> Some (Inl (FitFailure e))
           | Inr r \<Rightarrow>
               Some (Inr \<lparr>final = s, printed_formula = formula dv (selected s),
                          model_rsquared_adj = r\<rparr>)))"
  using assms by (simp add: data_mining_def candidates_def)

lemma data_mining_final:
  assumes "data_mining ols set_order data dv = Some (Inr r)"
  shows "\<exists>n. loop_head ols data dv n (initial (candidates set_order data dv)) = Some (final r) \<and>
     \<not> guard (final r) \<and> printed_formula r = formula dv (selected (final r)) \<and>
     ols (formula dv (selected (final r))) data = Inr (model_rsquared_adj r)"
proof -
  from assms have dv: "dv \<in> set (set_order (columns data))"
    by (auto simp: data_mining_def Let_def split: if_splits)
  from assms obtain t where w: "while_loop ols data dv (initial (candidates set_order data dv)) = Some (Inr t)"
    and r: "ols (formula dv (selected t)) data = Inr (model_rsquared_adj r)"
      "final r = t" "printed_formula r = formula dv (selected t)"
    unfolding data_mining_loop [where set_order = set_order and data = data, OF dv]
    by (auto split: option.splits sum.splits)
  from while_loop_returns [OF w] r show ?thesis by auto
qed

lemma data_mining_raises:
  assumes "dv \<in> set (set_order (columns data))"
    and "loop_head ols data dv n (initial (candidates set_order data dv)) = Some s"
    and "while_loop ols data dv s = Some (Inl (e, t))"
  shows "data_mining ols set_order data dv = Some (Inl e)"
  using while_loop_loop_head [OF assms(2)] assms(3)
  by (simp add: data_mining_loop [where set_order = set_order and data = data, OF assms(1)])

lemma data_mining_returns:
  assumes "dv \<in> set (set_order (columns data))"
    and "loop_head ols data dv n (initial (candidates set_order data dv)) = Some t"
    and "\<not> guard t"
    and "ols (formula dv (selected t)) data = Inr r"
  shows "data_mining ols set_order data dv =
     Some (Inr \<lparr>final = t, printed_formula = formula dv (selected t),
                model_rsquared_adj = r\<rparr>)"
proof -
  from assms(3) have "while_loop ols data dv t = Some (Inr t)"
    by (subst while_loop.simps) simp
  with while_loop_loop_head [OF assms(2)] assms(4) show ?thesis
    by (simp add: data_mining_loop [where set_order = set_order and data = data, OF assms(1)])
qed

subsection \<open>Termination\<close>

lemma yab_forwards: "candidates forwards yab ''y'' = [''a'', ''b'']"
  by (simp add: candidates_def forwards_def yab_def)

lemma yab_backwards: "candidates backwards yab ''y'' = [''b'', ''a'']"
  by (simp add: candidates_def backwards_def yab_def)

lemma perfect_first:
  "loop_head ols_perfect yab ''y'' (Suc 0) (initial [''a'', ''b'']) =
     Some \<lparr>remaining = [''b''], selected = [''a''], current_score = 1, best_new_score = 1,
           score = Some 0.3, stdout = [1]\<rparr>"
  by (simp add: guard_def body_def initial_def ols_perfect_def table_ols_def formula_def)

lemma perfect_stuck:
  assumes "remaining s = [''b''] \<and> selected s = [''a''] \<and> current_score s = 1 \<and>
     best_new_score s = 1"
  shows "guard s \<and> (\<exists>s'. body ols_perfect yab ''y'' s = Inr s' \<and>
     (remaining s' = [''b''] \<and> selected s' = [''a''] \<and> current_score s' = 1 \<and>
      best_new_score s' = 1))"
  using assms
  by (simp add: guard_def body_def ols_perfect_def table_ols_def formula_def)

text \<open>
  C1 (termination within \<open>|candidates| + 1\<close> iterations). The guard
  \<^verbatim>\<open>current_score == best_new_score\<close> holds after an accepted step, and also after a step
  whose best score equals the current score without exceeding it; that step changes
  neither \<^verbatim>\<open>remaining\<close> nor \<^verbatim>\<open>selected\<close>, so the next iteration repeats it. With columns
  \<open>y, a, b\<close> enumerated in this order, where \<open>a\<close> alone and \<open>a + b\<close> both fit \<open>y\<close> with
  adjusted R-squared 1.0, the first iteration accepts \<open>a\<close> and every later one finds the
  score 1.0 again: the loop never exits.
\<close>

theorem loop_does_not_exit_on_equal_score:
  "data_mining ols_perfect forwards yab ''y'' = None"
proof -
  let ?s1 = "\<lparr>remaining = [''b''], selected = [''a''], current_score = 1, best_new_score = 1,
           score = Some 0.3, stdout = [1]\<rparr>"
  have "while_loop ols_perfect yab ''y'' ?s1 = None"
    by (rule while_loop_diverges
        [where I = "\<lambda>s. remaining s = [''b''] \<and> selected s = [''a''] \<and>
           current_score s = 1 \<and> best_new_score s = 1"])
      (use perfect_stuck in simp_all)
  with while_loop_loop_head [OF perfect_first]
  have "while_loop ols_perfect yab ''y'' (initial [''a'', ''b'']) = None" by simp
  moreover have "''y'' \<in> set (forwards (columns yab))" by (simp add: forwards_def yab_def)
  ultimately show ?thesis
    using data_mining_loop [where set_order = forwards and data = yab and dv = "''y''"
        and ols = ols_perfect]
    by (simp add: yab_forwards)
qed

subsection \<open>Errors\<close>

text \<open>
  C7 (a dependent variable that is not a column). \<^verbatim>\<open>remaining.remove(dv)\<close> raises
  \<^verbatim>\<open>KeyError\<close> before any fit: whatever the fitting routine does, the routine fails with
  that error and returns no model.
\<close>

theorem missing_dependent_variable:
  assumes "dv \<notin> set (columns data)"
    and "set (set_order (columns data)) = set (columns data)"
  shows "data_mining ols set_order data dv = Some (Inl (KeyError dv))"
  using assms by (simp add: data_mining_def)

theorem missing_dependent_variable_witness:
  "''z'' \<notin> set (columns yab) \<and> set (forwards (columns yab)) = set (columns yab) \<and>
   data_mining ols_two forwards yab ''z'' = Some (Inl (KeyError ''z''))"
proof -
  have h1: "''z'' \<notin> set (columns yab)" by (simp add: yab_def)
  have h2: "set (forwards (columns yab)) = set (columns yab)" by (simp add: forwards_def)
  from missing_dependent_variable [where set_order = forwards and ols = ols_two, OF h1 h2] h1 h2
  show ?thesis by simp
qed




text \<open>
  C9 (the overfit check). After an accepted step the routine tests \<^verbatim>\<open>score == 1\<close>, where
  \<^verbatim>\<open>score\<close> is what the inner loop assigned last: the adjusted R-squared of the last
  candidate in iteration order, whichever candidate was the best. When the test succeeds
  the report \<^verbatim>\<open>'model overfitted: ' + selected\<close> raises \<^verbatim>\<open>TypeError\<close>, and the call ends
  with that exception instead of a model. So, at an iteration of a run where every fit
  succeeds, the body raises \<^verbatim>\<open>TypeError\<close> exactly when some candidate improves on the
  current score and the last candidate scores 1; \<^verbatim>\<open>selected\<close> has just been appended to
  and is not empty.
\<close>

theorem overfit_check_uses_last_score:
  assumes "dv \<in> set (set_order (columns data))"
    and "loop_head ols data dv n (initial (candidates set_order data dv)) = Some s"
    and "guard s"
    and "fits ols data dv (selected s) (remaining s)"
  shows "((\<exists>t. body ols data dv s = Inl (TypeError, t)) \<longleftrightarrow>
       (\<exists>c\<in>set (remaining s). current_score s < adj ols data dv (selected s) c) \<and>
       adj ols data dv (selected s) (last (remaining s)) = 1) \<and>
     (\<forall>t. body ols data dv s = Inl (TypeError, t) \<longrightarrow>
       selected t \<noteq> [] \<and> length (selected t) = length (selected s) + 1 \<and>
       data_mining ols set_order data dv = Some (Inl TypeError))"
proof -
  from assms(3) have ne: "remaining s \<noteq> []" by (simp add: guard_def)
  from Max_scored [OF ne, of ols data dv] obtain b where b: "b \<in> set (remaining s)"
    and m: "Max (set (scored ols data dv s)) = (adj ols data dv (selected s) b, b)"
    and g: "\<forall>c\<in>set (remaining s).
        adj ols data dv (selected s) c \<le> adj ols data dv (selected s) b"
    by blast
  have improves: "(\<exists>c\<in>set (remaining s). current_score s < adj ols data dv (selected s) c)
      \<longleftrightarrow> current_score s < adj ols data dv (selected s) b"
    using b g by force
  have first: "(\<exists>t. body ols data dv s = Inl (TypeError, t)) \<longleftrightarrow>
       (\<exists>c\<in>set (remaining s). current_score s < adj ols data dv (selected s) c) \<and>
       adj ols data dv (selected s) (last (remaining s)) = 1"
    unfolding improves body_fits [OF ne assms(4)] m by (simp add: Let_def)
  have "selected t \<noteq> [] \<and> length (selected t) = length (selected s) + 1 \<and>
      data_mining ols set_order data dv = Some (Inl TypeError)"
    if t: "body ols data dv s = Inl (TypeError, t)" for t
  proof -
    from assms(3) t have "while_loop ols data dv s = Some (Inl (TypeError, t))"
      by (subst while_loop.simps) simp
    from data_mining_raises [where set_order = set_order, OF assms(1) assms(2) this]
    have d: "data_mining ols set_order data dv = Some (Inl TypeError)" .
    from t have "selected t = selected s @ [b]"
      unfolding body_fits [OF ne assms(4)] m by (auto simp: Let_def split: if_splits)
    with d show ?thesis by simp
  qed
  with first show ?thesis by blast
qed

theorem overfit_check_uses_last_score_witness:
  "''y'' \<in> set (backwards (columns yab)) \<and>
   loop_head ols_perfect yab ''y'' 0 (initial (candidates backwards yab ''y'')) =
     Some (initial [''b'', ''a'']) \<and>
   guard (initial [''b'', ''a'']) \<and>
   fits ols_perfect yab ''y'' (selected (initial [''b'', ''a'']))
     (remaining (initial [''b'', ''a''])) \<and>
   adj ols_perfect yab ''y'' [] (last [''b'', ''a'']) = 1 \<and>
   body ols_perfect yab ''y'' (initial [''b'', ''a'']) =
     Inl (TypeError,
          \<lparr>remaining = [''b''], selected = [''a''], current_score = 1, best_new_score = 1,
           score = Some 1, stdout = [1]\<rparr>) \<and>
   data_mining ols_perfect backwards yab ''y'' = Some (Inl TypeError) \<and>
   adj ols_perfect yab ''y'' [] ''a'' = 1 \<and>
   adj ols_perfect yab ''y'' [] (last [''a'', ''b'']) = 0.3 \<and>
   body ols_perfect yab ''y'' (initial [''a'', ''b'']) =
     Inr \<lparr>remaining = [''b''], selected = [''a''], current_score = 1, best_new_score = 1,
          score = Some 0.3, stdout = [1]\<rparr>"
proof -
  have h1: "''y'' \<in> set (backwards (columns yab))" by (simp add: backwards_def yab_def)
  have h2: "loop_head ols_perfect yab ''y'' 0 (initial (candidates backwards yab ''y'')) =
     Some (initial [''b'', ''a''])" by (simp add: yab_backwards)
  have h3: "guard (initial [''b'', ''a''])" by (simp add: guard_def initial_def)
  have h4: "fits ols_perfect yab ''y'' (selected (initial [''b'', ''a'']))
     (remaining (initial [''b'', ''a'']))"
    by (simp add: fits_def initial_def ols_perfect_def table_ols_def formula_def)
  have h5: "adj ols_perfect yab ''y'' [] (last [''b'', ''a'']) = 1"
    by (simp add: adj_def ols_perfect_def table_ols_def formula_def)
  have h6: "body ols_perfect yab ''y'' (initial [''b'', ''a'']) =
     Inl (TypeError,
          \<lparr>remaining = [''b''], selected = [''a''], current_score = 1, best_new_score = 1,
           score = Some 1, stdout = [1]\<rparr>)"
    by (simp add: body_def initial_def ols_perfect_def table_ols_def formula_def)
  have h7: "adj ols_perfect yab ''y'' [] ''a'' = 1"
    "adj ols_perfect yab ''y'' [] (last [''a'', ''b'']) = 0.3"
    by (simp_all add: adj_def ols_perfect_def table_ols_def formula_def)
  have h8: "body ols_perfect yab ''y'' (initial [''a'', ''b'']) =
     Inr \<lparr>remaining = [''b''], selected = [''a''], current_score = 1, best_new_score = 1,
          score = Some 0.3, stdout = [1]\<rparr>"
    by (simp add: body_def initial_def ols_perfect_def table_ols_def formula_def)
  from overfit_check_uses_last_score [where set_order = backwards, OF h1 h2 h3 h4]
    h1 h2 h3 h4 h5 h6
  have "data_mining ols_perfect backwards yab ''y'' = Some (Inl TypeError)" by blast
  with h1 h2 h3 h4 h5 h6 h7 h8 show ?thesis by simp
qed

subsection \<open>The candidate that is chosen\<close>







subsection \<open>Invariants of a run\<close>

text \<open>The run on two informative predictors: two accepted steps, then \<^verbatim>\<open>remaining\<close> is
  empty.\<close>

lemma two_heads:
  "loop_head ols_two yab ''y'' (Suc 0) (initial (candidates forwards yab ''y'')) =
     Some \<lparr>remaining = [''b''], selected = [''a''], current_score = 0.5,
           best_new_score = 0.5, score = Some 0.3, stdout = [0.5]\<rparr>"
  "loop_head ols_two yab ''y'' (Suc (Suc 0)) (initial (candidates forwards yab ''y'')) =
     Some \<lparr>remaining = [], selected = [''a'', ''b''], current_score = 0.7,
           best_new_score = 0.7, score = Some 0.7, stdout = [0.5, 0.7]\<rparr>"
  by (simp_all add: yab_forwards guard_def body_def initial_def ols_two_def table_ols_def
      formula_def)

lemma two_run:
  "data_mining ols_two forwards yab ''y'' =
     Some (Inr \<lparr>final = \<lparr>remaining = [], selected = [''a'', ''b''], current_score = 0.7,
                          best_new_score = 0.7, score = Some 0.7, stdout = [0.5, 0.7]\<rparr>,
                printed_formula = ''y ~ a + b + 1'', model_rsquared_adj = 0.7\<rparr>)"
proof -
  let ?t = "\<lparr>remaining = [], selected = [''a'', ''b''], current_score = 0.7,
      best_new_score = 0.7, score = Some 0.7, stdout = [0.5, 0.7]\<rparr>"
  have h1: "''y'' \<in> set (forwards (columns yab))" by (simp add: forwards_def yab_def)
  have h3: "\<not> guard ?t" by (simp add: guard_def)
  have h4: "ols_two (formula ''y'' (selected ?t)) yab = Inr 0.7"
    by (simp add: ols_two_def table_ols_def formula_def)
  from data_mining_returns [where set_order = forwards, OF h1 two_heads(2) h3 h4]
  show ?thesis by (simp add: formula_def)
qed

lemma two_second:
  "guard \<lparr>remaining = [''b''], selected = [''a''], current_score = 0.5,
           best_new_score = 0.5, score = Some 0.3, stdout = [0.5]\<rparr>"
  "state_after (body ols_two yab ''y''
     \<lparr>remaining = [''b''], selected = [''a''], current_score = 0.5,
      best_new_score = 0.5, score = Some 0.3, stdout = [0.5]\<rparr>) =
     \<lparr>remaining = [], selected = [''a'', ''b''], current_score = 0.7,
      best_new_score = 0.7, score = Some 0.7, stdout = [0.5, 0.7]\<rparr>"
  by (simp_all add: guard_def state_after_def body_def ols_two_def table_ols_def formula_def)

lemma sorted_wrt_less_last:
  "sorted_wrt (<) (xs :: real list) \<Longrightarrow> x \<in> set xs \<Longrightarrow> x \<le> last xs"
  by (induction xs) (auto simp: less_imp_le)

lemma increasing_initial: "increasing (initial rem)"
  by (simp add: increasing_def initial_def)

lemma increasing_accept:
  assumes "increasing s" and "current_score s < x"
  shows "increasing (s\<lparr>remaining := r, selected := selected s @ [b], current_score := x,
     best_new_score := x, score := sc, stdout := stdout s @ [x]\<rparr>)"
proof -
  from assms(1) have srt: "sorted_wrt (<) (0 # stdout s)"
    and cur: "current_score s = last (0 # stdout s)"
    and len: "length (stdout s) = length (selected s)"
    by (simp_all add: increasing_def)
  have below: "y < x" if "y \<in> set (0 # stdout s)" for y
    using sorted_wrt_less_last [OF srt that] cur assms(2) by simp
  have "sorted_wrt (<) ((0 # stdout s) @ [x])"
    unfolding sorted_wrt_append using srt below by simp
  with len show ?thesis by (simp add: increasing_def)
qed

lemma increasing_after:
  assumes "increasing s" and "guard s"
  shows "increasing (state_after (body ols data dv s))"
proof -
  from assms(2) have ne: "remaining s \<noteq> []" by (simp add: guard_def)
  from state_after_body [OF ne, of ols data dv]
  consider sc where "state_after (body ols data dv s) = s\<lparr>score := sc\<rparr>"
    | sc x where "state_after (body ols data dv s) = s\<lparr>best_new_score := x, score := sc\<rparr>"
    | sc x b where "current_score s < x" "state_after (body ols data dv s) =
          s\<lparr>remaining := remove1 b (remaining s), selected := selected s @ [b],
            current_score := x, best_new_score := x, score := sc,
            stdout := stdout s @ [x]\<rparr>"
    by blast
  then show ?thesis
  proof cases
    case 1
    with assms(1) show ?thesis by (simp add: increasing_def)
  next
    case 2
    with assms(1) show ?thesis by (simp add: increasing_def)
  next
    case 3
    from increasing_accept [OF assms(1) 3(1)] 3(2) show ?thesis by simp
  qed
qed

text \<open>
  C2 (scores at accepted steps). \<^verbatim>\<open>print(current_score)\<close> runs exactly at the accepted
  steps, so \<open>stdout\<close> is the sequence of scores recorded there. In every state of a run
  (at the head of the loop, at the end of an iteration, at a raise) and in the state a
  returning call ends with, that sequence is strictly increasing and starts above 0, its
  last entry is the current score, and it has one entry per selected variable; an
  iteration that appends a variable raises the current score strictly and records it.
\<close>

theorem accepted_scores_strictly_increase:
  "(\<forall>n s. loop_head ols data dv n (initial (candidates set_order data dv)) = Some s \<longrightarrow>
      sorted_wrt (<) (0 # stdout s) \<and> current_score s = last (0 # stdout s) \<and>
      length (stdout s) = length (selected s) \<and>
      (guard s \<longrightarrow>
         increasing (state_after (body ols data dv s)) \<and>
         (selected (state_after (body ols data dv s)) \<noteq> selected s \<longrightarrow>
            current_score s < current_score (state_after (body ols data dv s)) \<and>
            stdout (state_after (body ols data dv s)) =
              stdout s @ [current_score (state_after (body ols data dv s))]))) \<and>
   (\<forall>r. data_mining ols set_order data dv = Some (Inr r) \<longrightarrow>
      sorted_wrt (<) (0 # stdout (final r)) \<and>
      current_score (final r) = last (0 # stdout (final r)) \<and>
      length (stdout (final r)) = length (selected (final r)))"
proof -
  let ?s0 = "initial (candidates set_order data dv)"
  have inv: "increasing s" if "loop_head ols data dv n ?s0 = Some s" for n s
    by (rule loop_head_invariant [OF that, where P = increasing])
      (simp_all add: increasing_initial increasing_after)
  have step: "current_score s < current_score (state_after (body ols data dv s)) \<and>
      stdout (state_after (body ols data dv s)) =
        stdout s @ [current_score (state_after (body ols data dv s))]"
    if "guard s" "selected (state_after (body ols data dv s)) \<noteq> selected s" for s
  proof -
    from that(1) have ne: "remaining s \<noteq> []" by (simp add: guard_def)
    from state_after_body [OF ne, of ols data dv] that(2) show ?thesis by auto
  qed
  have res: "increasing (final r)" if "data_mining ols set_order data dv = Some (Inr r)" for r
    using data_mining_final [OF that] inv by blast
  have a: "\<forall>n s. loop_head ols data dv n ?s0 = Some s \<longrightarrow>
      sorted_wrt (<) (0 # stdout s) \<and> current_score s = last (0 # stdout s) \<and>
      length (stdout s) = length (selected s) \<and>
      (guard s \<longrightarrow>
         increasing (state_after (body ols data dv s)) \<and>
         (selected (state_after (body ols data dv s)) \<noteq> selected s \<longrightarrow>
            current_score s < current_score (state_after (body ols data dv s)) \<and>
            stdout (state_after (body ols data dv s)) =
              stdout s @ [current_score (state_after (body ols data dv s))]))"
  proof (intro allI impI)
    fix n s assume l: "loop_head ols data dv n ?s0 = Some s"
    from inv [OF l] have i: "increasing s" .
    from i increasing_after [OF i, of ols data dv] step [of s]
    show "sorted_wrt (<) (0 # stdout s) \<and> current_score s = last (0 # stdout s) \<and>
      length (stdout s) = length (selected s) \<and>
      (guard s \<longrightarrow>
         increasing (state_after (body ols data dv s)) \<and>
         (selected (state_after (body ols data dv s)) \<noteq> selected s \<longrightarrow>
            current_score s < current_score (state_after (body ols data dv s)) \<and>
            stdout (state_after (body ols data dv s)) =
              stdout s @ [current_score (state_after (body ols data dv s))]))"
      unfolding increasing_def [of s] by blast
  qed
  have b: "\<forall>r. data_mining ols set_order data dv = Some (Inr r) \<longrightarrow>
      sorted_wrt (<) (0 # stdout (final r)) \<and>
      current_score (final r) = last (0 # stdout (final r)) \<and>
      length (stdout (final r)) = length (selected (final r))"
    using res unfolding increasing_def by blast
  from a b show ?thesis by (rule conjI)
qed

theorem accepted_scores_strictly_increase_witness:
  "loop_head ols_two yab ''y'' (Suc 0) (initial (candidates forwards yab ''y'')) =
     Some \<lparr>remaining = [''b''], selected = [''a''], current_score = 0.5,
           best_new_score = 0.5, score = Some 0.3, stdout = [0.5]\<rparr> \<and>
   guard \<lparr>remaining = [''b''], selected = [''a''], current_score = 0.5,
           best_new_score = 0.5, score = Some 0.3, stdout = [0.5]\<rparr> \<and>
   state_after (body ols_two yab ''y''
     \<lparr>remaining = [''b''], selected = [''a''], current_score = 0.5,
      best_new_score = 0.5, score = Some 0.3, stdout = [0.5]\<rparr>) =
     \<lparr>remaining = [], selected = [''a'', ''b''], current_score = 0.7,
      best_new_score = 0.7, score = Some 0.7, stdout = [0.5, 0.7]\<rparr> \<and>
   data_mining ols_two forwards yab ''y'' =
     Some (Inr \<lparr>final = \<lparr>remaining = [], selected = [''a'', ''b''], current_score = 0.7,
                          best_new_score = 0.7, score = Some 0.7, stdout = [0.5, 0.7]\<rparr>,
                printed_formula = ''y ~ a + b + 1'', model_rsquared_adj = 0.7\<rparr>) \<and>
   (0.5 :: real) < 0.7 \<and> sorted_wrt (<) [0, 0.5, 0.7 :: real]"
proof -
  let ?s1 = "\<lparr>remaining = [''b''], selected = [''a''], current_score = 0.5,
           best_new_score = 0.5, score = Some 0.3, stdout = [0.5]\<rparr>"
  let ?s2 = "\<lparr>remaining = [], selected = [''a'', ''b''], current_score = 0.7,
          best_new_score = 0.7, score = Some 0.7, stdout = [0.5, 0.7]\<rparr>"
  have d: "selected (state_after (body ols_two yab ''y'' ?s1)) \<noteq> selected ?s1"
    unfolding two_second(2) by simp
  note inst = accepted_scores_strictly_increase
    [where ols = ols_two and data = yab and dv = "''y''" and set_order = forwards]
  from inst two_heads(1) two_second(1) d
  have "current_score ?s1 < current_score (state_after (body ols_two yab ''y'' ?s1))"
    by blast
  then have "(0.5 :: real) < 0.7" unfolding two_second(2) by simp
  moreover from inst two_run have "sorted_wrt (<) (0 # stdout ?s2)"
    by (metis result.select_convs(1))
  ultimately show ?thesis using two_heads(1) two_second two_run by simp
qed

lemma partitioned_initial:
  assumes "distinct (set_order (columns data))"
    and "set (set_order (columns data)) = set (columns data)"
  shows "partitioned (set (columns data) - {dv}) (initial (candidates set_order data dv))"
  using assms by (simp add: partitioned_def initial_def candidates_def)

lemma moves_one:
  assumes "guard s"
  shows "remaining (state_after (body ols data dv s)) = remaining s \<and>
       selected (state_after (body ols data dv s)) = selected s \<or>
     (\<exists>b\<in>set (remaining s).
        selected (state_after (body ols data dv s)) = selected s @ [b] \<and>
        remaining (state_after (body ols data dv s)) = remove1 b (remaining s))"
proof -
  from assms have ne: "remaining s \<noteq> []" by (simp add: guard_def)
  from state_after_body [OF ne, of ols data dv] show ?thesis by auto
qed

lemma partitioned_after:
  assumes "partitioned C s" and "guard s"
  shows "partitioned C (state_after (body ols data dv s))"
  using moves_one [OF assms(2), of ols data dv] assms(1)
  unfolding partitioned_def by auto

lemma partitioned_length:
  assumes "partitioned C s"
  shows "length (selected s) + length (remaining s) = card C"
proof -
  from assms have "distinct (selected s @ remaining s)" and "set (selected s @ remaining s) = C"
    by (auto simp: partitioned_def)
  from distinct_card [OF this(1)] this(2) show ?thesis by simp
qed

text \<open>
  C4 (\<^verbatim>\<open>selected\<close> and \<^verbatim>\<open>remaining\<close>). In every state of a run (at the head of the loop,
  at the end of an iteration, at a raise) and in the state a returning call ends with,
  \<^verbatim>\<open>selected\<close> has no duplicates and no more entries than there were candidate columns,
  \<^verbatim>\<open>remaining\<close> and \<^verbatim>\<open>selected\<close> are disjoint and together hold exactly the candidate
  columns. An iteration either leaves both unchanged or moves one name from \<^verbatim>\<open>remaining\<close>
  to the end of \<^verbatim>\<open>selected\<close>, so \<^verbatim>\<open>remaining\<close> loses exactly one element at an accepted step
  and never gains one.
\<close>

theorem selected_and_remaining_partition_candidates:
  assumes "distinct (set_order (columns data))"
    and "set (set_order (columns data)) = set (columns data)"
  shows "(\<forall>n s. loop_head ols data dv n (initial (candidates set_order data dv)) = Some s \<longrightarrow>
      distinct (selected s) \<and>
      length (selected s) \<le> card (set (columns data) - {dv}) \<and>
      set (selected s) \<inter> set (remaining s) = {} \<and>
      set (selected s) \<union> set (remaining s) = set (columns data) - {dv} \<and>
      (guard s \<longrightarrow>
         partitioned (set (columns data) - {dv}) (state_after (body ols data dv s)) \<and>
         length (selected (state_after (body ols data dv s)))
           \<le> card (set (columns data) - {dv}) \<and>
         (remaining (state_after (body ols data dv s)) = remaining s \<and>
            selected (state_after (body ols data dv s)) = selected s \<or>
          (\<exists>b\<in>set (remaining s).
             selected (state_after (body ols data dv s)) = selected s @ [b] \<and>
             set (remaining (state_after (body ols data dv s))) = set (remaining s) - {b} \<and>
             length (remaining (state_after (body ols data dv s))) + 1
               = length (remaining s))))) \<and>
   (\<forall>r. data_mining ols set_order data dv = Some (Inr r) \<longrightarrow>
      distinct (selected (final r)) \<and>
      length (selected (final r)) \<le> card (set (columns data) - {dv}) \<and>
      set (selected (final r)) \<inter> set (remaining (final r)) = {})"
proof -
  let ?s0 = "initial (candidates set_order data dv)"
  let ?C = "set (columns data) - {dv}"
  have inv: "partitioned ?C s" if "loop_head ols data dv n ?s0 = Some s" for n s
    by (rule loop_head_invariant [OF that, where P = "partitioned ?C"])
      (simp_all add: partitioned_initial [where set_order = set_order and data = data, OF assms]
        partitioned_after)
  have len: "length (selected s) \<le> card ?C" if "partitioned ?C s" for s
    using partitioned_length [OF that] by simp
  have step: "remaining (state_after (body ols data dv s)) = remaining s \<and>
            selected (state_after (body ols data dv s)) = selected s \<or>
          (\<exists>b\<in>set (remaining s).
             selected (state_after (body ols data dv s)) = selected s @ [b] \<and>
             set (remaining (state_after (body ols data dv s))) = set (remaining s) - {b} \<and>
             length (remaining (state_after (body ols data dv s))) + 1
               = length (remaining s))"
    if p: "partitioned ?C s" and g: "guard s" for s
  proof -
    from p have d: "distinct (remaining s)" by (simp add: partitioned_def)
    from moves_one [OF g, of ols data dv]
    consider "remaining (state_after (body ols data dv s)) = remaining s \<and>
        selected (state_after (body ols data dv s)) = selected s"
      | b where "b \<in> set (remaining s)"
        "selected (state_after (body ols data dv s)) = selected s @ [b]"
        "remaining (state_after (body ols data dv s)) = remove1 b (remaining s)"
      by blast
    then show ?thesis
    proof cases
      case 1
      then show ?thesis by simp
    next
      case 2
      have "set (remaining (state_after (body ols data dv s))) = set (remaining s) - {b}"
        using d 2(3) by simp
      moreover have "length (remaining (state_after (body ols data dv s))) + 1
          = length (remaining s)"
      proof -
        from 2(1) have "0 < length (remaining s)" by (cases "remaining s") auto
        with 2(1,3) show ?thesis by (simp add: length_remove1)
      qed
      ultimately show ?thesis using 2(1,2) by blast
    qed
  qed
  have res: "partitioned ?C (final r)"
    if "data_mining ols set_order data dv = Some (Inr r)" for r
    using data_mining_final [OF that] inv by blast
  have a: "\<forall>n s. loop_head ols data dv n ?s0 = Some s \<longrightarrow>
      distinct (selected s) \<and>
      length (selected s) \<le> card ?C \<and>
      set (selected s) \<inter> set (remaining s) = {} \<and>
      set (selected s) \<union> set (remaining s) = ?C \<and>
      (guard s \<longrightarrow>
         partitioned ?C (state_after (body ols data dv s)) \<and>
         length (selected (state_after (body ols data dv s))) \<le> card ?C \<and>
         (remaining (state_after (body ols data dv s)) = remaining s \<and>
            selected (state_after (body ols data dv s)) = selected s \<or>
          (\<exists>b\<in>set (remaining s).
             selected (state_after (body ols data dv s)) = selected s @ [b] \<and>
             set (remaining (state_after (body ols data dv s))) = set (remaining s) - {b} \<and>
             length (remaining (state_after (body ols data dv s))) + 1
               = length (remaining s))))"
  proof (intro allI impI conjI)
    fix n s assume l: "loop_head ols data dv n ?s0 = Some s"
    from inv [OF l] have p: "partitioned ?C s" .
    from p show "distinct (selected s)" "set (selected s) \<inter> set (remaining s) = {}"
      "set (selected s) \<union> set (remaining s) = ?C"
      by (simp_all add: partitioned_def)
    from len [OF p] show "length (selected s) \<le> card ?C" .
    assume g: "guard s"
    from partitioned_after [OF p g]
    show pa: "partitioned ?C (state_after (body ols data dv s))" .
    from len [OF pa] show "length (selected (state_after (body ols data dv s))) \<le> card ?C" .
    from step [OF p g]
    show "remaining (state_after (body ols data dv s)) = remaining s \<and>
            selected (state_after (body ols data dv s)) = selected s \<or>
          (\<exists>b\<in>set (remaining s).
             selected (state_after (body ols data dv s)) = selected s @ [b] \<and>
             set (remaining (state_after (body ols data dv s))) = set (remaining s) - {b} \<and>
             length (remaining (state_after (body ols data dv s))) + 1
               = length (remaining s))" .
  qed
  have b: "\<forall>r. data_mining ols set_order data dv = Some (Inr r) \<longrightarrow>
      distinct (selected (final r)) \<and>
      length (selected (final r)) \<le> card ?C \<and>
      set (selected (final r)) \<inter> set (remaining (final r)) = {}"
  proof (intro allI impI)
    fix r assume "data_mining ols set_order data dv = Some (Inr r)"
    from res [OF this] have p: "partitioned ?C (final r)" .
    from p len [OF p] show "distinct (selected (final r)) \<and>
      length (selected (final r)) \<le> card ?C \<and>
      set (selected (final r)) \<inter> set (remaining (final r)) = {}"
      unfolding partitioned_def by blast
  qed
  from a b show ?thesis by (rule conjI)
qed

theorem selected_and_remaining_partition_candidates_witness:
  "distinct (forwards (columns yab)) \<and>
   set (forwards (columns yab)) = set (columns yab) \<and>
   loop_head ols_two yab ''y'' (Suc 0) (initial (candidates forwards yab ''y'')) =
     Some \<lparr>remaining = [''b''], selected = [''a''], current_score = 0.5,
           best_new_score = 0.5, score = Some 0.3, stdout = [0.5]\<rparr> \<and>
   guard \<lparr>remaining = [''b''], selected = [''a''], current_score = 0.5,
           best_new_score = 0.5, score = Some 0.3, stdout = [0.5]\<rparr> \<and>
   state_after (body ols_two yab ''y''
     \<lparr>remaining = [''b''], selected = [''a''], current_score = 0.5,
      best_new_score = 0.5, score = Some 0.3, stdout = [0.5]\<rparr>) =
     \<lparr>remaining = [], selected = [''a'', ''b''], current_score = 0.7,
      best_new_score = 0.7, score = Some 0.7, stdout = [0.5, 0.7]\<rparr> \<and>
   data_mining ols_two forwards yab ''y'' =
     Some (Inr \<lparr>final = \<lparr>remaining = [], selected = [''a'', ''b''], current_score = 0.7,
                          best_new_score = 0.7, score = Some 0.7, stdout = [0.5, 0.7]\<rparr>,
                printed_formula = ''y ~ a + b + 1'', model_rsquared_adj = 0.7\<rparr>) \<and>
   length [''a'', ''b''] \<le> card (set (columns yab) - {''y''})"
proof -
  let ?s2 = "\<lparr>remaining = [], selected = [''a'', ''b''], current_score = 0.7,
          best_new_score = 0.7, score = Some 0.7, stdout = [0.5, 0.7]\<rparr>"
  have h1: "distinct (forwards (columns yab))" by (simp add: forwards_def)
  have h2: "set (forwards (columns yab)) = set (columns yab)" by (simp add: forwards_def)
  note inst = selected_and_remaining_partition_candidates
    [where ols = ols_two and data = yab and dv = "''y''" and set_order = forwards, OF h1 h2]
  from inst two_run have "length (selected ?s2) \<le> card (set (columns yab) - {''y''})"
    by (metis result.select_convs(1))
  with h1 h2 two_heads(1) two_second two_run show ?thesis by simp
qed

subsection \<open>Independence of the iteration order\<close>









subsection \<open>The masks\<close>

lemma range3_180:
  assumes "a < 4"
  shows "set (range3 a 180 4) = {i. i < 180 \<and> i mod 4 = a}"
proof (rule set_eqI)
  fix i
  have n: "(180 - a + (4 - 1)) div 4 = 45" using assms by simp
  have "i \<in> set (range3 a 180 4) \<longleftrightarrow> (\<exists>k<45. i = a + k * 4)"
    unfolding range3_def n by auto
  also have "\<dots> \<longleftrightarrow> i < 180 \<and> i mod 4 = a"
  proof
    assume "\<exists>k<45. i = a + k * 4"
    then obtain k where "k < 45" "i = a + k * 4" by blast
    with assms show "i < 180 \<and> i mod 4 = a" by simp
  next
    assume h: "i < 180 \<and> i mod 4 = a"
    then have "i div 4 < 45" by arith
    moreover from h have "i = a + (i div 4) * 4" by arith
    ultimately show "\<exists>k<45. i = a + k * 4" by blast
  qed
  finally show "i \<in> set (range3 a 180 4) \<longleftrightarrow> i \<in> {i. i < 180 \<and> i mod 4 = a}" by simp
qed

lemma range3_distinct: "distinct (range3 a b 4)"
  unfolding range3_def by (rule distinct_map [THEN iffD2]) (simp add: inj_on_def)

lemma set_train_mask: "set train_mask = {i. i < 180 \<and> (i mod 4 = 0 \<or> i mod 4 = 1)}"
  by (auto simp: train_mask_def range3_180)

lemma set_validate_mask: "set validate_mask = {i. i < 180 \<and> i mod 4 = 2}"
  by (simp add: validate_mask_def range3_180)

lemma set_test_mask: "set test_mask = {i. i < 180 \<and> i mod 4 = 3}"
  by (simp add: test_mask_def range3_180)

lemma distinct_train_mask: "distinct train_mask"
proof -
  have "set (range3 0 180 4) \<inter> set (range3 1 180 4) = {}"
    by (auto simp: range3_180)
  then show ?thesis by (simp add: train_mask_def range3_distinct)
qed

text \<open>
  C8 (the split). The claim is that every row of the sorted dataset goes to one of the
  three subsets. The masks are built with the literal 180, so a row with label 180 or
  more is in none of them: in a dataset of 181 rows the last row, at offset 0 of its
  cycle, is not in \<^verbatim>\<open>train\<close> nor in any other subset.
\<close>

theorem row_180_in_no_subset:
  "180 \<in> set (labels rows181) \<and> (180 :: nat) mod 4 = 0 \<and>
   180 \<notin> set train_mask \<and> 180 \<notin> set validate_mask \<and> 180 \<notin> set test_mask"
  by (simp add: set_train_mask set_validate_mask set_test_mask labels_def rows181_def)

text \<open>
  C8 as the masks are built: a row label below 180 is in \<^verbatim>\<open>train_mask\<close> exactly when it
  is at offset 0 or 1 of its 4-row cycle, in \<^verbatim>\<open>validate_mask\<close> exactly at offset 2 and in
  \<^verbatim>\<open>test_mask\<close> exactly at offset 3; the masks list no label twice, are pairwise disjoint
  and together hold exactly the labels \<open>0, \<dots>, 179\<close>. So the rows of a dataset of at most
  180 rows are all assigned, each to one subset.
\<close>

theorem masks_partition_first_180_labels:
  "(\<forall>i<180.
      (i \<in> set train_mask \<longleftrightarrow> i mod 4 = 0 \<or> i mod 4 = 1) \<and>
      (i \<in> set validate_mask \<longleftrightarrow> i mod 4 = 2) \<and>
      (i \<in> set test_mask \<longleftrightarrow> i mod 4 = 3)) \<and>
   distinct train_mask \<and> distinct validate_mask \<and> distinct test_mask \<and>
   sorted train_mask \<and>
   set train_mask \<inter> set validate_mask = {} \<and>
   set train_mask \<inter> set test_mask = {} \<and>
   set validate_mask \<inter> set test_mask = {} \<and>
   set train_mask \<union> set validate_mask \<union> set test_mask = {0..<180} \<and>
   (\<forall>df :: 'r dataframe. length (rows df) \<le> 180 \<longrightarrow>
      set (labels df) \<subseteq> set train_mask \<union> set validate_mask \<union> set test_mask)"
proof -
  have offs: "\<forall>i<180.
      (i \<in> set train_mask \<longleftrightarrow> i mod 4 = 0 \<or> i mod 4 = 1) \<and>
      (i \<in> set validate_mask \<longleftrightarrow> i mod 4 = 2) \<and>
      (i \<in> set test_mask \<longleftrightarrow> i mod 4 = 3)"
    by (simp add: set_train_mask set_validate_mask set_test_mask)
  have d: "distinct train_mask" "distinct validate_mask" "distinct test_mask"
    by (simp_all add: distinct_train_mask range3_distinct validate_mask_def test_mask_def)
  have s: "sorted train_mask" by (simp add: train_mask_def)
  have dj: "set train_mask \<inter> set validate_mask = {}"
    "set train_mask \<inter> set test_mask = {}"
    "set validate_mask \<inter> set test_mask = {}"
    by (auto simp: set_train_mask set_validate_mask set_test_mask)
  have u: "set train_mask \<union> set validate_mask \<union> set test_mask = {0..<180}"
    unfolding set_train_mask set_validate_mask set_test_mask
    by (auto simp: set_eq_iff)
  have c: "\<forall>df :: 'r dataframe. length (rows df) \<le> 180 \<longrightarrow>
      set (labels df) \<subseteq> set train_mask \<union> set validate_mask \<union> set test_mask"
    unfolding u by (auto simp: labels_def)
  from offs d s dj u c show ?thesis by blast
qed

theorem masks_partition_first_180_labels_witness:
  "(6 :: nat) < 180 \<and> 6 mod 4 = (2 :: nat) \<and> 6 \<in> set validate_mask \<and>
   6 \<notin> set train_mask \<and> 6 \<notin> set test_mask \<and>
   length (rows rows7) \<le> 180 \<and> 6 \<in> set (labels rows7)"
proof -
  have h: "(6 :: nat) < 180" by simp
  have r: "length (rows rows7) \<le> 180" by (simp add: rows7_def)
  have l: "6 \<in> set (labels rows7)" by (simp add: labels_def rows7_def)
  from masks_partition_first_180_labels [where 'r = unit] h r l show ?thesis by simp
qed

end
